theory Spec2Isabelle
  imports Complex_Main
begin

section \<open>Strings of the source language\<close>

text \<open>
  The source is TypeScript for the micro:bit (general.ts). Strings are modelled as
  \<^typ>\<open>string\<close>. \<open>s.substr(start, length)\<close> and \<open>s.substr(start)\<close> follow the language:
  a negative start counts from the end (not below 0), a start beyond the end and a
  length that is not positive give the empty string, and the result is cut at the end
  of \<open>s\<close>.
\<close>

definition substr :: "string \<Rightarrow> int \<Rightarrow> int \<Rightarrow> string" where
  "substr s start len =
     (let n = int (length s);
          b = (if start < 0 then max (n + start) 0 else start)
      in if len \<le> 0 then [] else take (nat len) (drop (nat b) s))"

definition substrFrom :: "string \<Rightarrow> int \<Rightarrow> string" where
  "substrFrom s start =
     (let n = int (length s);
          b = (if start < 0 then max (n + start) 0 else start)
      in drop (nat b) s)"

text \<open>\<open>id.toString()\<close> for a whole number: its decimal digits, with a minus sign below 0.\<close>

definition digitChar :: "nat \<Rightarrow> char" where
  "digitChar d = ''0123456789'' ! (d mod 10)"

function natToString :: "nat \<Rightarrow> string" where
  "natToString n =
     (if n < 10 then [digitChar n] else natToString (n div 10) @ [digitChar (n mod 10)])"
  by pat_completeness auto
termination
  by (relation "measure (\<lambda>n. n)") auto

definition toString :: "int \<Rightarrow> string" where
  "toString i = (if i < 0 then CHR ''-'' # natToString (nat (- i)) else natToString (nat i))"

section \<open>Radio message handling: the registry\<close>

text \<open>
  The three parallel arrays \<open>ETradioIds\<close>, \<open>ETradioMsgs\<close>, \<open>ETradioHandlers\<close> and the
  fallback \<open>ETradioHandler\<close> of general.ts. A handler is a value of type \<open>'h\<close>;
  \<open>None\<close> is the source's \<open>undefined\<close> (a handler variable never assigned).
  Calling a handler is recorded in \<open>calls\<close>, in order, with its argument; what a
  handler does inside is the application's code and not part of this model.
\<close>

record 'h radio =
  ETradioIds :: "string list"
  ETradioMsgs :: "string list"
  ETradioHandlers :: "'h option list"
  ETradioHandler :: "'h option"
  calls :: "('h \<times> string) list"

definition startup :: "'h radio" where
  "startup = \<lparr>ETradioIds = [], ETradioMsgs = [], ETradioHandlers = [],
              ETradioHandler = None, calls = []\<rparr>"

definition normalizeId :: "string \<Rightarrow> string" where
  "normalizeId ident =
     (if length ident = 0 then ''ET''
      else if length ident = 1 then ident @ ''#''
      else if length ident = 2 then ident
      else substr ident 0 2)"

text \<open>
  \<open>General.registerMessageHandler(id, hnd)\<close>: the returned number and the new state.
  The parameter \<open>id\<close> is written \<open>ident\<close> here and below (\<open>id\<close> is the identity
  function of HOL); the \<open>switch (id.length)\<close> is \<open>normalizeId\<close>.
\<close>

definition registerMessageHandler :: "string \<Rightarrow> 'h option \<Rightarrow> 'h radio \<Rightarrow> nat \<times> 'h radio" where
  "registerMessageHandler ident hnd st =
     (let st' = st\<lparr>ETradioHandlers := ETradioHandlers st @ [hnd],
                   ETradioIds := ETradioIds st @ [normalizeId ident],
                   ETradioMsgs := ETradioMsgs st @ [[]]\<rparr>
      in (length (ETradioHandlers st') - 1, st'))"

text \<open>\<open>General.onRadioMessage(code)\<close> installs the fallback handler.\<close>

definition onRadioMessage :: "'h \<Rightarrow> 'h radio \<Rightarrow> 'h radio" where
  "onRadioMessage code st = st\<lparr>ETradioHandler := Some code\<rparr>"

section \<open>Radio message handling: sending\<close>

text \<open>
  The \<open>do ... while (msg.length > 0)\<close> loop of \<open>General.sendRadioMessage\<close>. The result is
  the list of strings passed to \<open>radio.sendString\<close>, in order.
\<close>

function sendLoop :: "string \<Rightarrow> string \<Rightarrow> string list" where
  "sendLoop idstr msg =
     (let chunk = substr msg 0 17;
          msg' = substrFrom msg 17;
          chunk' = (if length chunk < 17 then chunk @ ''~'' else chunk)
      in if length msg' > 0 then (idstr @ chunk') # sendLoop idstr msg'
         else [idstr @ chunk'])"
  by pat_completeness auto
termination
  by (relation "measure (\<lambda>(idstr, msg). length msg)") (auto simp: substrFrom_def)

text \<open>
  \<open>General.sendRadioMessage(msg, id)\<close>, for a whole number \<open>id\<close>. \<open>idstrOf\<close> is the
  value given to \<open>idstr\<close>: \<open>"0" + id.toString()\<close> below 10, \<open>id.toString()\<close> otherwise.
\<close>

definition idstrOf :: "int \<Rightarrow> string" where
  "idstrOf ident = (if ident < 10 then ''0'' @ toString ident else toString ident)"

definition sendRadioMessage :: "string \<Rightarrow> int \<Rightarrow> string list" where
  "sendRadioMessage msg ident =
     (if ident \<le> 0 \<or> ident \<ge> 100 then []
      else let idstr = idstrOf ident in sendLoop idstr msg)"

section \<open>Radio message handling: receiving\<close>

text \<open>
  \<open>let id = +idstr\<close> converts the first two characters of the unit to a number. The
  language's numbers are modelled by \<open>number\<close>: \<open>NaN\<close>, or a rational value. Every
  comparison with \<open>NaN\<close> is false, as in the language.

  \<open>toNumber\<close> is the conversion of a string by unary \<open>+\<close>: white space around the text
  is ignored, the empty text is 0, and otherwise the text must be an optionally signed
  decimal literal (digits, with an optional point); anything else is \<open>NaN\<close>. Exponents,
  hexadecimal literals and \<open>Infinity\<close> need at least three characters and are left out:
  the handler converts at most two characters. A character of the model is a code unit
  below 256; the white space of the language among these is the tab, the line feed, the
  vertical tab, the form feed, the carriage return, the space and the no-break space
  (code unit A0 in hexadecimal).
\<close>

datatype number = NaN | Num rat

fun numLe :: "number \<Rightarrow> number \<Rightarrow> bool" where
  "numLe (Num x) (Num y) = (x \<le> y)"
| "numLe _ _ = False"

fun numGe :: "number \<Rightarrow> number \<Rightarrow> bool" where
  "numGe (Num x) (Num y) = (x \<ge> y)"
| "numGe _ _ = False"

definition isSpace :: "char \<Rightarrow> bool" where
  "isSpace c = (c \<in> set [CHR '' '', CHR 0x09, CHR 0x0A, CHR 0x0B, CHR 0x0C, CHR 0x0D, CHR 0xA0])"

definition isDigit :: "char \<Rightarrow> bool" where
  "isDigit c = (c \<in> set ''0123456789'')"

definition digitVal :: "char \<Rightarrow> nat" where
  "digitVal c = of_char c - 48"

definition digitsVal :: "string \<Rightarrow> nat" where
  "digitsVal ds = foldl (\<lambda>v c. 10 * v + digitVal c) 0 ds"

definition trim :: "string \<Rightarrow> string" where
  "trim s = dropWhile isSpace (rev (dropWhile isSpace (rev s)))"

definition toNumber :: "string \<Rightarrow> number" where
  "toNumber s =
     (let t = trim s in
      if t = [] then Num 0
      else
        let neg = (hd t = CHR ''-'');
            u = (if hd t = CHR ''+'' \<or> hd t = CHR ''-'' then tl t else t);
            ip = takeWhile isDigit u;
            rest = dropWhile isDigit u;
            sgn = (if neg then - 1 else 1)
        in if rest = [] then (if ip = [] then NaN else Num (sgn * of_nat (digitsVal ip)))
           else if hd rest = CHR ''.'' \<and> list_all isDigit (tl rest) \<and> (ip \<noteq> [] \<or> tl rest \<noteq> [])
             then Num (sgn * (of_nat (digitsVal ip)
                               + of_nat (digitsVal (tl rest)) / 10 ^ length (tl rest)))
           else NaN)"

text \<open>
  The search loop \<open>for (ix = 0; ix < ETradioIds.length; ix++) if (idstr == ETradioIds[ix]) break\<close>:
  the index of the first equal id, or the length of the array.
\<close>

fun findIx :: "string \<Rightarrow> string list \<Rightarrow> nat" where
  "findIx idstr [] = 0"
| "findIx idstr (x # xs) = (if idstr = x then 0 else Suc (findIx idstr xs))"

text \<open>
  The handler given to \<open>radio.onReceivedString\<close>. Calling \<open>ETradioHandlers[ix]\<close> when it
  is \<open>undefined\<close> is a runtime failure, \<open>CallUndefined\<close>. The three arrays grow together
  in \<open>registerMessageHandler\<close> only, so an index found in \<open>ETradioIds\<close> is an index of
  the other two (lemma \<open>inSync\<close> below); the model reports the contrary as \<open>OutOfSync\<close>.
\<close>

datatype failure = CallUndefined | OutOfSync

definition onReceivedString :: "string \<Rightarrow> 'h radio \<Rightarrow> failure + 'h radio" where
  "onReceivedString msg st =
     (let idstr = substr msg 0 2;
          ident = toNumber idstr;
          msgend = (substrFrom msg (int (length msg) - 1) = ''~'');
          chunk = (if msgend then substr msg 2 (int (length msg) - 3)
                   else substr msg 2 (int (length msg) - 2));
          ix = findIx idstr (ETradioIds st)
      in if ix = length (ETradioIds st) \<and> (numLe ident (Num 0) \<or> numGe ident (Num 100))
         then Inr st
         else
           let st1 = (if ix = length (ETradioIds st)
                      then snd (registerMessageHandler idstr (ETradioHandler st) st)
                      else st)
           in if length (ETradioMsgs st1) \<le> ix \<or> length (ETradioHandlers st1) \<le> ix
              then Inl OutOfSync
              else
                let st2 = st1\<lparr>ETradioMsgs := (ETradioMsgs st1)[ix := ETradioMsgs st1 ! ix @ chunk]\<rparr>
                in if msgend
                   then (case ETradioHandlers st2 ! ix of
                           None \<Rightarrow> Inl CallUndefined
                         | Some h \<Rightarrow>
                             Inr (st2\<lparr>calls := calls st2 @ [(h, ETradioMsgs st2 ! ix)],
                                      ETradioMsgs := (ETradioMsgs st2)[ix := []]\<rparr>))
                   else Inr st2)"

text \<open>Units arriving one after the other; a failure stops the run.\<close>

fun receiveAll :: "string list \<Rightarrow> 'h radio \<Rightarrow> failure + 'h radio" where
  "receiveAll [] st = Inr st"
| "receiveAll (u # us) st =
     (case onReceivedString u st of Inl e \<Rightarrow> Inl e | Inr st' \<Rightarrow> receiveAll us st')"

definition inSync :: "'h radio \<Rightarrow> bool" where
  "inSync st = (length (ETradioMsgs st) = length (ETradioIds st)
                \<and> length (ETradioHandlers st) = length (ETradioIds st))"

definition idsOk :: "'h radio \<Rightarrow> bool" where
  "idsOk st = (inSync st \<and> (\<forall>x \<in> set (ETradioIds st). length x = 2))"

text \<open>
  The states the registry can be in: after start-up, after a registration, after the
  fallback handler is installed, and after a unit was received without failure.
\<close>

inductive reachable :: "'h radio \<Rightarrow> bool" where
  atStartup: "reachable startup"
| afterRegister: "reachable st \<Longrightarrow> reachable (snd (registerMessageHandler ident hnd st))"
| afterOnRadioMessage: "reachable st \<Longrightarrow> reachable (onRadioMessage code st)"
| afterReceive: "reachable st \<Longrightarrow> onReceivedString msg st = Inr st' \<Longrightarrow> reachable st'"

section \<open>Selecting the radio group with the logo\<close>

text \<open>
  \<open>ETgroup\<close>, \<open>ETgroupTimer\<close> and \<open>ETgroupSet\<close> of general.ts, with what the handlers do
  to the outside: \<open>radioGroup\<close> is the last argument of \<open>radio.setGroup\<close>, \<open>notified\<close>
  lists the calls of \<open>displayGroup()\<close> with the group shown, and \<open>raised\<close> counts the
  runs of the \<open>control.onEvent\<close> handler that \<open>control.raiseEvent\<close> has started and that
  have not finished. Time is \<open>control.millis()\<close>, a natural number of milliseconds.
  A handler runs without interruption except inside \<open>basic.pause\<close>.
\<close>

record groupState =
  ETgroup :: int
  ETgroupTimer :: nat
  ETgroupSet :: bool
  radioGroup :: int
  raised :: nat
  notified :: "int list"

text \<open>The top level runs \<open>radio.setGroup(1)\<close> and \<open>displayGroup()\<close> once when the program loads.\<close>

definition groupStartup :: groupState where
  "groupStartup = \<lparr>ETgroup = 1, ETgroupTimer = 0, ETgroupSet = False,
                   radioGroup = 1, raised = 0, notified = [1]\<rparr>"

definition increment :: "int \<Rightarrow> int" where
  "increment g = (if g + 1 > 9 then 1 else g + 1)"

text \<open>The handler of \<open>input.onLogoEvent(TouchButtonEvent.Pressed, ...)\<close>, run at time \<open>now\<close>.\<close>

definition onLogoEvent :: "nat \<Rightarrow> groupState \<Rightarrow> groupState" where
  "onLogoEvent now g =
     (let g1 = (if ETgroupSet g
                then g\<lparr>ETgroup := increment (ETgroup g), radioGroup := increment (ETgroup g)\<rparr>
                else g\<lparr>ETgroupSet := True\<rparr>)
      in if ETgroupTimer g1 = 0
         then g1\<lparr>ETgroupTimer := now + 1000, raised := raised g1 + 1\<rparr>
         else g1\<lparr>ETgroupTimer := now + 1000\<rparr>)"

text \<open>
  The handler of \<open>control.onEvent(ETeventId, 0, ...)\<close>: one test of its
  \<open>while (ETgroupTimer > control.millis())\<close> at time \<open>now\<close>. While the test holds the
  handler pauses; when it fails the handler runs to its end.
\<close>

definition onEventPoll :: "nat \<Rightarrow> groupState \<Rightarrow> groupState" where
  "onEventPoll now g =
     (if raised g = 0 then g
      else if ETgroupTimer g > now then g
      else g\<lparr>notified := notified g @ [ETgroup g], ETgroupTimer := 0,
              ETgroupSet := False, raised := raised g - 1\<rparr>)"

datatype gevent = LogoPressed nat | Poll nat

fun gstep :: "gevent \<Rightarrow> groupState \<Rightarrow> groupState" where
  "gstep (LogoPressed t) g = onLogoEvent t g"
| "gstep (Poll t) g = onEventPoll t g"

fun run :: "gevent list \<Rightarrow> groupState \<Rightarrow> groupState" where
  "run [] g = g"
| "run (e # es) g = run es (gstep e g)"

text \<open>
  A burst: the events that follow a gesture at time \<open>latest\<close>, in which every test of
  the waiting handler comes before the deadline set by the latest gesture.
\<close>

fun inBurst :: "nat \<Rightarrow> gevent list \<Rightarrow> bool" where
  "inBurst latest [] = True"
| "inBurst latest (LogoPressed t # es) = inBurst t es"
| "inBurst latest (Poll t # es) = (t < latest + 1000 \<and> inBurst latest es)"

fun lastGesture :: "nat \<Rightarrow> gevent list \<Rightarrow> nat" where
  "lastGesture latest [] = latest"
| "lastGesture latest (LogoPressed t # es) = lastGesture t es"
| "lastGesture latest (Poll t # es) = lastGesture latest es"

fun gestures :: "gevent list \<Rightarrow> nat" where
  "gestures [] = 0"
| "gestures (LogoPressed t # es) = Suc (gestures es)"
| "gestures (Poll t # es) = gestures es"

text \<open>The state while a burst is going on, \<open>n\<close> gestures after its first.\<close>

definition pendingAfter :: "groupState \<Rightarrow> nat \<Rightarrow> nat \<Rightarrow> groupState" where
  "pendingAfter g n latest =
     g\<lparr>ETgroup := (increment ^^ n) (ETgroup g),
       ETgroupTimer := latest + 1000,
       ETgroupSet := True,
       radioGroup := (if n = 0 then radioGroup g else (increment ^^ n) (ETgroup g)),
       raised := 1\<rparr>"

section \<open>Waiting, and aborting a wait with button B\<close>

text \<open>
  \<open>now\<close> is \<open>control.millis()\<close> and \<open>abort\<close> is the flag (\<open>WAITABORT\<close> in main.ts,
  \<open>ETwaitAbort\<close> in general.ts). Button A sets the flag to false and button B sets it to
  true; the handlers of the buttons run while the waiting code is inside
  \<open>basic.pause(1)\<close>. \<open>presses t\<close> is the button whose handler runs during the pause
  that starts at time \<open>t\<close>, if any. A pause of 1 ms advances the clock by 1.
\<close>

record world =
  now :: nat
  abort :: bool

datatype button = ButtonA | ButtonB

definition onButtonPressed :: "button \<Rightarrow> world \<Rightarrow> world" where
  "onButtonPressed b w = (case b of ButtonA \<Rightarrow> w\<lparr>abort := False\<rparr> | ButtonB \<Rightarrow> w\<lparr>abort := True\<rparr>)"

definition pause1 :: "(nat \<Rightarrow> button option) \<Rightarrow> world \<Rightarrow> world" where
  "pause1 presses w =
     (case presses (now w) of
        None \<Rightarrow> w\<lparr>now := now w + 1\<rparr>
      | Some b \<Rightarrow> (onButtonPressed b w)\<lparr>now := now w + 1\<rparr>)"

datatype outcome = Elapsed | Aborted

text \<open>
  \<open>let tm = control.millis() + sec * 1000\<close>. The numbers of the language are doubles:
  the product and the sum are each rounded to the nearest double. \<open>fl\<close> is that
  rounding. It is a parameter of the model, and what is proved below about \<open>wait\<close> holds
  for every rounding. \<open>sec\<close> is the value of the (finite) double that \<open>wait\<close> receives,
  and the clock is a whole number, which the sum takes as it is.

  Where the exact result is itself a double, as for the product and the sum of whole
  numbers below \<open>2^53\<close>, the rounding returns it: \<open>noRounding\<close>.
\<close>

definition deadline :: "(rat \<Rightarrow> rat) \<Rightarrow> nat \<Rightarrow> rat \<Rightarrow> rat" where
  "deadline fl n sec = fl (of_nat n + fl (sec * 1000))"

definition noRounding :: "rat \<Rightarrow> rat" where
  "noRounding x = x"

text \<open>\<open>General.wait(sec)\<close> of main.ts: \<open>if (WAITABORT) return\<close>.\<close>

function waitLoopSticky :: "(nat \<Rightarrow> button option) \<Rightarrow> rat \<Rightarrow> world \<Rightarrow> outcome \<times> world" where
  "waitLoopSticky presses tm w =
     (if of_nat (now w) < tm
      then (if abort w then (Aborted, w)
            else waitLoopSticky presses tm (pause1 presses w))
      else (Elapsed, w))"
  by pat_completeness auto
termination
proof (relation "measure (\<lambda>(presses, tm, w). nat \<lceil>tm\<rceil> - now w)")
  show "wf (measure (\<lambda>(presses, tm, w). nat \<lceil>tm\<rceil> - now w))" by simp
next
  fix presses :: "nat \<Rightarrow> button option" and tm :: rat and w :: world
  assume "of_nat (now w) < tm"
  then have "int (now w) < \<lceil>tm\<rceil>" by linarith
  then show "((presses, tm, pause1 presses w), (presses, tm, w))
             \<in> measure (\<lambda>(presses, tm, w). nat \<lceil>tm\<rceil> - now w)"
    by (auto simp: pause1_def onButtonPressed_def split: option.splits button.splits)
qed

definition waitSticky ::
  "(rat \<Rightarrow> rat) \<Rightarrow> (nat \<Rightarrow> button option) \<Rightarrow> rat \<Rightarrow> world \<Rightarrow> outcome \<times> world" where
  "waitSticky fl presses sec w = waitLoopSticky presses (deadline fl (now w) sec) w"

text \<open>\<open>General.wait(sec)\<close> of general.ts: \<open>if (ETwaitAbort) { ETwaitAbort = false; return }\<close>.\<close>

function waitLoopReset :: "(nat \<Rightarrow> button option) \<Rightarrow> rat \<Rightarrow> world \<Rightarrow> outcome \<times> world" where
  "waitLoopReset presses tm w =
     (if of_nat (now w) < tm
      then (if abort w then (Aborted, w\<lparr>abort := False\<rparr>)
            else waitLoopReset presses tm (pause1 presses w))
      else (Elapsed, w))"
  by pat_completeness auto
termination
proof (relation "measure (\<lambda>(presses, tm, w). nat \<lceil>tm\<rceil> - now w)")
  show "wf (measure (\<lambda>(presses, tm, w). nat \<lceil>tm\<rceil> - now w))" by simp
next
  fix presses :: "nat \<Rightarrow> button option" and tm :: rat and w :: world
  assume "of_nat (now w) < tm"
  then have "int (now w) < \<lceil>tm\<rceil>" by linarith
  then show "((presses, tm, pause1 presses w), (presses, tm, w))
             \<in> measure (\<lambda>(presses, tm, w). nat \<lceil>tm\<rceil> - now w)"
    by (auto simp: pause1_def onButtonPressed_def split: option.splits button.splits)
qed

definition waitReset ::
  "(rat \<Rightarrow> rat) \<Rightarrow> (nat \<Rightarrow> button option) \<Rightarrow> rat \<Rightarrow> world \<Rightarrow> outcome \<times> world" where
  "waitReset fl presses sec w = waitLoopReset presses (deadline fl (now w) sec) w"

text \<open>
  \<open>General.waitUntil(state)\<close> of main.ts. The parameter is a \<open>boolean\<close>: the loop tests
  the value it was called with. The loop need not end, so the result is an option:
  \<open>None\<close> when the call never returns.
\<close>

partial_function (option) waitUntil :: "(nat \<Rightarrow> button option) \<Rightarrow> bool \<Rightarrow> world \<Rightarrow> world option" where
  "waitUntil presses state w =
     (if \<not> state
      then (if abort w then Some w else waitUntil presses state (pause1 presses w))
      else Some w)"

text \<open>
  A call \<open>General.waitUntil(e)\<close>: the language evaluates the argument \<open>e\<close> once, before
  the call. \<open>cond t\<close> is the value of \<open>e\<close> at time \<open>t\<close>.
\<close>

definition callWaitUntil :: "(nat \<Rightarrow> bool) \<Rightarrow> (nat \<Rightarrow> button option) \<Rightarrow> world \<Rightarrow> world option" where
  "callWaitUntil cond presses w = waitUntil presses (cond (now w)) w"

text \<open>Inputs used in the examples below.\<close>

definition noPress :: "nat \<Rightarrow> button option" where
  "noPress t = None"

definition pressBAt :: "nat \<Rightarrow> nat \<Rightarrow> button option" where
  "pressBAt t0 t = (if t = t0 then Some ButtonB else None)"

definition trueFrom :: "nat \<Rightarrow> nat \<Rightarrow> bool" where
  "trueFrom t0 t = (t0 \<le> t)"

section \<open>Sending: the shape of the units\<close>

declare sendLoop.simps [simp del]
declare natToString.simps [simp del]

text \<open>The three cases of one turn of the sending loop.\<close>

lemma sendLoop_short: "length msg < 17 \<Longrightarrow> sendLoop idstr msg = [idstr @ msg @ ''~'']"
  by (subst sendLoop.simps) (simp add: substr_def substrFrom_def)

lemma sendLoop_exact: "length msg = 17 \<Longrightarrow> sendLoop idstr msg = [idstr @ msg]"
  by (subst sendLoop.simps) (simp add: substr_def substrFrom_def)

lemma sendLoop_long:
  "17 < length msg \<Longrightarrow> sendLoop idstr msg = (idstr @ take 17 msg) # sendLoop idstr (drop 17 msg)"
  by (subst sendLoop.simps) (simp add: substr_def substrFrom_def Let_def)

lemma natToString_digit: "n < 10 \<Longrightarrow> length (natToString n) = 1"
  by (subst natToString.simps) simp

lemma natToString_two: "10 \<le> n \<Longrightarrow> n < 100 \<Longrightarrow> length (natToString n) = 2"
  by (subst natToString.simps) (simp add: natToString_digit)

lemma length_idstrOf: "1 \<le> ident \<Longrightarrow> ident \<le> 99 \<Longrightarrow> length (idstrOf ident) = 2"
  by (simp add: idstrOf_def toString_def natToString_two natToString_digit)

lemma sendRadioMessage_valid:
  "1 \<le> ident \<Longrightarrow> ident \<le> 99 \<Longrightarrow> sendRadioMessage msg ident = sendLoop (idstrOf ident) msg"
  by (simp add: sendRadioMessage_def Let_def)

lemma sendLoop_unit_length:
  "u \<in> set (sendLoop idstr msg) \<Longrightarrow> length u \<le> length idstr + 17"
proof (induction "length msg" arbitrary: msg rule: less_induct)
  case less
  consider "length msg < 17" | "length msg = 17" | "17 < length msg" by linarith
  then show ?case
  proof cases
    case 1 with less.prems show ?thesis by (simp add: sendLoop_short)
  next
    case 2 with less.prems show ?thesis by (simp add: sendLoop_exact)
  next
    case 3
    with less.prems have "u = idstr @ take 17 msg \<or> u \<in> set (sendLoop idstr (drop 17 msg))"
      by (simp add: sendLoop_long)
    then show ?thesis
    proof
      assume "u = idstr @ take 17 msg" then show ?thesis by simp
    next
      assume "u \<in> set (sendLoop idstr (drop 17 msg))"
      moreover have "length (drop 17 msg) < length msg" using 3 by simp
      ultimately show ?thesis using less.hyps by blast
    qed
  qed
qed

lemma sendLoop_count: "length (sendLoop idstr msg) = (max (length msg) 1 + 16) div 17"
proof (induction "length msg" arbitrary: msg rule: less_induct)
  case less
  consider "length msg < 17" | "length msg = 17" | "17 < length msg" by linarith
  then show ?case
  proof cases
    case 1
    then have "(max (length msg) 1 + 16) div 17 = 1" by (simp add: max_def) arith
    with 1 show ?thesis by (simp add: sendLoop_short)
  next
    case 2 then show ?thesis by (simp add: sendLoop_exact)
  next
    case 3
    then have "length (sendLoop idstr (drop 17 msg)) = (max (length (drop 17 msg)) 1 + 16) div 17"
      using less.hyps [of "drop 17 msg"] by simp
    moreover have "(max (length msg) 1 + 16) div 17 = Suc ((max (length msg - 17) 1 + 16) div 17)"
      using 3 by (simp add: max_def) arith
    ultimately show ?thesis using 3 by (simp add: sendLoop_long)
  qed
qed

lemma sendLoop_nonempty: "sendLoop idstr msg \<noteq> []"
  using sendLoop_count [of idstr msg] by (auto simp: max_def split: if_splits)

lemma sendLoop_inner:
  "Suc k < length (sendLoop idstr msg) \<Longrightarrow> length (sendLoop idstr msg ! k) = length idstr + 17"
proof (induction "length msg" arbitrary: msg k rule: less_induct)
  case less
  consider "length msg < 17" | "length msg = 17" | "17 < length msg" by linarith
  then show ?case
  proof cases
    case 1 with less.prems show ?thesis by (simp add: sendLoop_short)
  next
    case 2 with less.prems show ?thesis by (simp add: sendLoop_exact)
  next
    case 3
    show ?thesis
    proof (cases k)
      case 0 with 3 show ?thesis by (simp add: sendLoop_long)
    next
      case (Suc j)
      with 3 less.prems have "Suc j < length (sendLoop idstr (drop 17 msg))"
        by (simp add: sendLoop_long)
      moreover have "length (drop 17 msg) < length msg" using 3 by simp
      ultimately have "length (sendLoop idstr (drop 17 msg) ! j) = length idstr + 17"
        using less.hyps by blast
      with 3 Suc show ?thesis by (simp add: sendLoop_long)
    qed
  qed
qed

lemma sendLoop_last:
  "length msg mod 17 \<noteq> 0 \<Longrightarrow>
   length (last (sendLoop idstr msg)) = length idstr + length msg mod 17 + 1"
proof (induction "length msg" arbitrary: msg rule: less_induct)
  case less
  consider "length msg < 17" | "length msg = 17" | "17 < length msg" by linarith
  then show ?case
  proof cases
    case 1 then show ?thesis by (simp add: sendLoop_short)
  next
    case 2 with less.prems show ?thesis by simp
  next
    case 3
    have m: "length (drop 17 msg) mod 17 = length msg mod 17"
      using 3 by (simp add: le_mod_geq)
    have "length (last (sendLoop idstr (drop 17 msg)))
          = length idstr + length (drop 17 msg) mod 17 + 1"
      using less.hyps [of "drop 17 msg"] less.prems 3 m by simp
    with 3 m show ?thesis by (simp add: sendLoop_long sendLoop_nonempty)
  qed
qed

lemma ceiling_17: "\<lceil>rat_of_nat n / 17\<rceil> = int ((n + 16) div 17)"
proof -
  have "\<lceil>rat_of_nat n / 17\<rceil> = \<lceil>rat_of_int (int n) / rat_of_int 17\<rceil>" by simp
  also have "\<dots> = - (- int n div 17)" by (rule ceiling_divide_eq_div)
  also have "\<dots> = int ((n + 16) div 17)" by (simp add: zdiv_int)
  finally show ?thesis .
qed

text \<open>
  Claim C3, as the code has it. For every string and every id from 1 to 99,
  \<open>sendRadioMessage\<close> emits \<open>ceil(max(len, 1) / 17)\<close> units; every unit but the last has
  length 19; when the length of the string is not a multiple of 17 the last unit has
  length \<open>2 + len mod 17 + 1\<close>, the 1 being the terminator; and the empty string gives
  the single unit of the id and the terminator, of length 3.
\<close>

theorem send_units_shape:
  assumes "1 \<le> ident" and "ident \<le> 99"
  shows "int (length (sendRadioMessage msg ident)) = \<lceil>rat_of_nat (max (length msg) 1) / 17\<rceil>
         \<and> (\<forall>k. Suc k < length (sendRadioMessage msg ident)
                 \<longrightarrow> length (sendRadioMessage msg ident ! k) = 19)
         \<and> (length msg mod 17 \<noteq> 0
              \<longrightarrow> length (last (sendRadioMessage msg ident)) = 2 + length msg mod 17 + 1)
         \<and> (msg = [] \<longrightarrow> sendRadioMessage msg ident = [idstrOf ident @ ''~'']
                          \<and> length (idstrOf ident @ ''~'') = 3)"
proof -
  have s: "sendRadioMessage msg ident = sendLoop (idstrOf ident) msg"
    using assms by (rule sendRadioMessage_valid)
  have l: "length (idstrOf ident) = 2" using assms by (rule length_idstrOf)
  have c1: "int (length (sendRadioMessage msg ident)) = \<lceil>rat_of_nat (max (length msg) 1) / 17\<rceil>"
    by (simp only: s sendLoop_count ceiling_17)
  have c2: "\<forall>k. Suc k < length (sendRadioMessage msg ident)
                 \<longrightarrow> length (sendRadioMessage msg ident ! k) = 19"
    by (simp add: s sendLoop_inner l)
  have c3: "length msg mod 17 \<noteq> 0
              \<longrightarrow> length (last (sendRadioMessage msg ident)) = 2 + length msg mod 17 + 1"
    by (simp add: s sendLoop_last l)
  have c4: "msg = [] \<longrightarrow> sendRadioMessage msg ident = [idstrOf ident @ ''~'']
                          \<and> length (idstrOf ident @ ''~'') = 3"
    using assms l by (simp add: sendRadioMessage_valid sendLoop_short)
  from c1 c2 c3 c4 show ?thesis by blast
qed

lemma send_hello: "sendRadioMessage ''hello'' 5 = [''05hello~'']"
  by (simp add: sendRadioMessage_def idstrOf_def toString_def digitChar_def natToString.simps sendLoop_short)

lemma send_17: "sendRadioMessage ''aaaaaaaaaaaaaaaaa'' 1 = [''01aaaaaaaaaaaaaaaaa'']"
  by (simp add: sendRadioMessage_def idstrOf_def toString_def digitChar_def natToString.simps sendLoop_exact)

lemma send_18:
  "sendRadioMessage ''aaaaaaaaaaaaaaaaaa'' 12 = [''12aaaaaaaaaaaaaaaaa'', ''12a~'']"
  by (simp add: sendRadioMessage_def idstrOf_def toString_def digitChar_def natToString.simps
      sendLoop_long sendLoop_short)

theorem send_units_shape_witness:
  "(1::int) \<le> 12 \<and> (12::int) \<le> 99
   \<and> int (length (sendRadioMessage ''aaaaaaaaaaaaaaaaaa'' 12))
       = \<lceil>rat_of_nat (max (length ''aaaaaaaaaaaaaaaaaa'') 1) / 17\<rceil>
   \<and> Suc 0 < length (sendRadioMessage ''aaaaaaaaaaaaaaaaaa'' 12)
   \<and> length (sendRadioMessage ''aaaaaaaaaaaaaaaaaa'' 12 ! 0) = 19
   \<and> length ''aaaaaaaaaaaaaaaaaa'' mod 17 \<noteq> 0
   \<and> length (last (sendRadioMessage ''aaaaaaaaaaaaaaaaaa'' 12))
       = 2 + length ''aaaaaaaaaaaaaaaaaa'' mod 17 + 1"
  using send_units_shape [of 12 "''aaaaaaaaaaaaaaaaaa''"] by (simp add: send_18)

text \<open>
  For a string of 17 characters the last (and only) unit has 19 characters, not the
  \<open>2 + 17 + 1\<close> of claim C3: the loop adds the terminator to a chunk shorter than 17 only.
\<close>

theorem last_unit_counterexample:
  "length (last (sendRadioMessage ''aaaaaaaaaaaaaaaaa'' 1))
   \<noteq> 2 + (if length ''aaaaaaaaaaaaaaaaa'' mod 17 = 0 then 17
           else length ''aaaaaaaaaaaaaaaaa'' mod 17) + 1"
  by (simp add: send_17)

text \<open>
  Claim C7. Every unit that \<open>sendRadioMessage\<close> emits, for every string and every id,
  has at most 19 characters.
\<close>

theorem unit_length_bounded:
  "u \<in> set (sendRadioMessage msg ident) \<Longrightarrow> length u \<le> 19"
proof (cases "1 \<le> ident \<and> ident \<le> 99")
  case True
  assume "u \<in> set (sendRadioMessage msg ident)"
  with True have "u \<in> set (sendLoop (idstrOf ident) msg)" by (simp add: sendRadioMessage_valid)
  then have "length u \<le> length (idstrOf ident) + 17" by (rule sendLoop_unit_length)
  with True show ?thesis by (simp add: length_idstrOf)
next
  case False
  assume "u \<in> set (sendRadioMessage msg ident)"
  with False show ?thesis by (auto simp add: sendRadioMessage_def)
qed

theorem unit_length_bounded_witness:
  "''05hello~'' \<in> set (sendRadioMessage ''hello'' 5) \<and> length ''05hello~'' \<le> 19"
  using unit_length_bounded [of "''05hello~''" "''hello''" 5] by (simp add: send_hello)

section \<open>The registry\<close>



lemma length_normalizeId: "length (normalizeId ident) = 2"
proof -
  consider "length ident = 0" | "length ident = 1" | "length ident = 2" | "2 < length ident"
    by linarith
  then show ?thesis by cases (auto simp: normalizeId_def substr_def)
qed

lemma idsOk_register: "idsOk st \<Longrightarrow> idsOk (snd (registerMessageHandler ident hnd st))"
  by (simp add: idsOk_def inSync_def registerMessageHandler_def Let_def length_normalizeId)

lemma idsOk_msgs: "idsOk st \<Longrightarrow> idsOk (st\<lparr>ETradioMsgs := (ETradioMsgs st)[ix := ms]\<rparr>)"
  by (simp add: idsOk_def inSync_def)

lemma idsOk_calls: "idsOk st \<Longrightarrow> idsOk (st\<lparr>calls := c\<rparr>)"
  by (simp add: idsOk_def inSync_def)

lemma idsOk_receive:
  assumes ok: "idsOk st" and r: "onReceivedString msg st = Inr st'"
  shows "idsOk st'"
proof -
  define idstr where "idstr = substr msg 0 2"
  define ix where "ix = findIx idstr (ETradioIds st)"
  define msgend where "msgend = (substrFrom msg (int (length msg) - 1) = ''~'')"
  define chunk where "chunk = (if msgend then substr msg 2 (int (length msg) - 3)
                               else substr msg 2 (int (length msg) - 2))"
  define st1 where "st1 = (if ix = length (ETradioIds st)
              then snd (registerMessageHandler idstr (ETradioHandler st) st) else st)"
  define st2 where "st2 = st1\<lparr>ETradioMsgs := (ETradioMsgs st1)[ix := ETradioMsgs st1 ! ix @ chunk]\<rparr>"
  define gate where "gate = (ix = length (ETradioIds st)
       \<and> (numLe (toNumber idstr) (Num 0) \<or> numGe (toNumber idstr) (Num 100)))"
  have e: "onReceivedString msg st =
     (if gate then Inr st
      else if length (ETradioMsgs st1) \<le> ix \<or> length (ETradioHandlers st1) \<le> ix
           then Inl OutOfSync
           else if msgend
                then (case ETradioHandlers st2 ! ix of
                        None \<Rightarrow> Inl CallUndefined
                      | Some h \<Rightarrow> Inr (st2\<lparr>calls := calls st2 @ [(h, ETradioMsgs st2 ! ix)],
                                          ETradioMsgs := (ETradioMsgs st2)[ix := []]\<rparr>))
                else Inr st2)"
    unfolding onReceivedString_def Let_def gate_def st2_def st1_def chunk_def msgend_def ix_def idstr_def
    by (rule refl)
  have ok1: "idsOk st1" using ok by (simp add: st1_def idsOk_register)
  have ok2: "idsOk st2" unfolding st2_def using ok1 by (rule idsOk_msgs)
  show ?thesis
  proof (cases gate)
    case True
    with r e have "st' = st" by simp
    with ok show ?thesis by simp
  next
    case False
    show ?thesis
    proof (cases msgend)
      case True
      with r e False obtain h where
        "st' = st2\<lparr>calls := calls st2 @ [(h, ETradioMsgs st2 ! ix)],
                   ETradioMsgs := (ETradioMsgs st2)[ix := []]\<rparr>"
        by (auto split: if_splits option.splits)
      moreover have "idsOk ((st2\<lparr>calls := calls st2 @ [(h, ETradioMsgs st2 ! ix)]\<rparr>)
                       \<lparr>ETradioMsgs := (ETradioMsgs (st2\<lparr>calls := calls st2 @ [(h, ETradioMsgs st2 ! ix)]\<rparr>))[ix := []]\<rparr>)"
        using ok2 by (intro idsOk_msgs idsOk_calls)
      ultimately show ?thesis by simp
    next
      case msgend: False
      with r e False have "st' = st2" by (auto split: if_splits)
      with ok2 show ?thesis by simp
    qed
  qed
qed

lemma normalizeId_long: "2 < length ident \<Longrightarrow> normalizeId ident = take 2 ident"
  by (auto simp: normalizeId_def substr_def)

lemma register_fields:
  "registerMessageHandler ident hnd st = (ix, st') \<Longrightarrow>
     ETradioIds st' = ETradioIds st @ [normalizeId ident]
     \<and> ETradioMsgs st' = ETradioMsgs st @ [[]]
     \<and> ETradioHandlers st' = ETradioHandlers st @ [hnd]
     \<and> ETradioHandler st' = ETradioHandler st
     \<and> calls st' = calls st
     \<and> ix = length (ETradioHandlers st)"
  by (auto simp: registerMessageHandler_def Let_def)

lemma reachable_idsOk: "reachable st \<Longrightarrow> idsOk st"
proof (induction rule: reachable.induct)
  case atStartup
  show ?case by (simp add: idsOk_def inSync_def startup_def)
next
  case (afterRegister st ident hnd)
  then show ?case by (simp add: idsOk_register)
next
  case (afterOnRadioMessage st code)
  then show ?case by (simp add: idsOk_def inSync_def onRadioMessage_def)
next
  case (afterReceive st msg st')
  then show ?case by (blast intro: idsOk_receive)
qed

text \<open>
  Claim C8. \<open>registerMessageHandler\<close> makes the id two characters long (\<open>"ET"\<close> for the
  empty id, a \<open>#\<close> after a single character, the first two characters of a longer id),
  appends the id, an empty accumulator and the handler, and returns the index of the
  new entry; so every id in the registry has length 2.
\<close>

theorem register_normalizes_id:
  assumes "reachable st" and "registerMessageHandler ident hnd st = (ix, st')"
  shows "length (normalizeId ident) = 2
         \<and> (ident = [] \<longrightarrow> normalizeId ident = ''ET'')
         \<and> (length ident = 1 \<longrightarrow> normalizeId ident = ident @ ''#'')
         \<and> (length ident = 2 \<longrightarrow> normalizeId ident = ident)
         \<and> (2 < length ident \<longrightarrow> normalizeId ident = take 2 ident)
         \<and> ETradioIds st' = ETradioIds st @ [normalizeId ident]
         \<and> ETradioMsgs st' = ETradioMsgs st @ [[]]
         \<and> ETradioHandlers st' = ETradioHandlers st @ [hnd]
         \<and> ix = length (ETradioIds st)
         \<and> (\<forall>x \<in> set (ETradioIds st'). length x = 2)"
proof -
  have ok: "idsOk st" using assms(1) by (rule reachable_idsOk)
  have f: "ETradioIds st' = ETradioIds st @ [normalizeId ident]
           \<and> ETradioMsgs st' = ETradioMsgs st @ [[]]
           \<and> ETradioHandlers st' = ETradioHandlers st @ [hnd]
           \<and> ix = length (ETradioHandlers st)"
    using register_fields [OF assms(2)] by simp
  have n: "(ident = [] \<longrightarrow> normalizeId ident = ''ET'')
           \<and> (length ident = 1 \<longrightarrow> normalizeId ident = ident @ ''#'')
           \<and> (length ident = 2 \<longrightarrow> normalizeId ident = ident)"
    by (simp add: normalizeId_def)
  have i: "ix = length (ETradioIds st)" using f ok by (simp add: idsOk_def inSync_def)
  have a: "\<forall>x \<in> set (ETradioIds st'). length x = 2"
    using f ok by (simp add: idsOk_def length_normalizeId)
  from f n i a show ?thesis by (simp add: length_normalizeId normalizeId_long)
qed

lemma normalizeId_7: "normalizeId ''7'' = ''7#''"
  by (simp add: normalizeId_def)

lemma register_7:
  "registerMessageHandler ''7'' (Some ''show'') startup
   = (0, \<lparr>ETradioIds = [''7#''], ETradioMsgs = [[]], ETradioHandlers = [Some ''show''],
          ETradioHandler = None, calls = []\<rparr>)"
  by (simp add: registerMessageHandler_def startup_def normalizeId_7)

theorem register_normalizes_id_witness:
  "reachable (startup :: string radio)
   \<and> registerMessageHandler ''7'' (Some ''show'') startup
     = (0, \<lparr>ETradioIds = [''7#''], ETradioMsgs = [[]], ETradioHandlers = [Some ''show''],
            ETradioHandler = None, calls = []\<rparr>)
   \<and> length (normalizeId ''7'') = 2 \<and> normalizeId ''7'' = ''7#''
   \<and> length ''7#'' = 2"
  using register_normalizes_id [OF atStartup register_7] atStartup register_7
  by (simp add: normalizeId_7)

section \<open>Receiving: units with an unknown id\<close>

lemma findIx_le: "findIx idstr ids \<le> length ids"
  by (induction ids) auto

lemma toNumber_ab: "toNumber ''ab'' = NaN"
  by (simp add: toNumber_def trim_def isSpace_def isDigit_def)

lemma toNumber_nbsp: "toNumber [CHR 0xA0, CHR ''0''] = Num 0"
  by (simp add: toNumber_def trim_def isSpace_def isDigit_def digitsVal_def digitVal_def)

text \<open>
  A unit with an id that is not in the registry: it is dropped when the id converts to
  a number that is at most 0 or at least 100, and otherwise the id is registered with
  the fallback handler. \<open>NaN\<close> passes the guard.
\<close>

lemma unknown_id_dropped:
  assumes "findIx (substr msg 0 2) (ETradioIds st) = length (ETradioIds st)"
    and "toNumber (substr msg 0 2) = Num r" and "r \<le> 0 \<or> 100 \<le> r"
  shows "onReceivedString msg st = Inr st"
  using assms by (simp add: onReceivedString_def Let_def)

lemma unknown_id_registered:
  assumes "findIx (substr msg 0 2) (ETradioIds st) = length (ETradioIds st)"
    and "\<not> numLe (toNumber (substr msg 0 2)) (Num 0)"
    and "\<not> numGe (toNumber (substr msg 0 2)) (Num 100)"
    and "onReceivedString msg st = Inr st'"
  shows "ETradioIds st' = ETradioIds st @ [normalizeId (substr msg 0 2)]
         \<and> ETradioHandlers st' = ETradioHandlers st @ [ETradioHandler st]"
proof -
  define st1 where "st1 = snd (registerMessageHandler (substr msg 0 2) (ETradioHandler st) st)"
  have i: "ETradioIds st1 = ETradioIds st @ [normalizeId (substr msg 0 2)]"
    and h: "ETradioHandlers st1 = ETradioHandlers st @ [ETradioHandler st]"
    by (simp_all add: st1_def registerMessageHandler_def Let_def)
  have "ETradioIds st' = ETradioIds st1 \<and> ETradioHandlers st' = ETradioHandlers st1"
    using assms unfolding onReceivedString_def Let_def st1_def
    by (auto split: if_splits option.splits)
  with i h show ?thesis by simp
qed

lemma nan_passes_guard: "\<not> numLe NaN (Num 0) \<and> \<not> numGe NaN (Num 100)"
  by simp

text \<open>
  The handler fails only through a handler that is \<open>undefined\<close>: with a fallback
  installed and every registered handler defined, every unit is processed.
\<close>

lemma receive_total:
  assumes "inSync st" and "ETradioHandler st \<noteq> None" and "None \<notin> set (ETradioHandlers st)"
  shows "\<exists>st'. onReceivedString msg st = Inr st'"
proof -
  define idstr where "idstr = substr msg 0 2"
  define ix where "ix = findIx idstr (ETradioIds st)"
  define st1 where "st1 = (if ix = length (ETradioIds st)
              then snd (registerMessageHandler idstr (ETradioHandler st) st) else st)"
  have le: "ix \<le> length (ETradioIds st)" unfolding ix_def by (rule findIx_le)
  have s1: "inSync st1" using assms(1)
    by (simp add: st1_def inSync_def registerMessageHandler_def Let_def)
  have ix1: "ix < length (ETradioIds st1)" using le
    by (auto simp: st1_def registerMessageHandler_def Let_def)
  have d1: "None \<notin> set (ETradioHandlers st1)" using assms(2,3)
    by (auto simp: st1_def registerMessageHandler_def Let_def)
  have "ix < length (ETradioHandlers st1)" using ix1 s1 by (simp add: inSync_def)
  then have "ETradioHandlers st1 ! ix \<in> set (ETradioHandlers st1)" by (rule nth_mem)
  with d1 obtain h where h: "ETradioHandlers st1 ! ix = Some h" by (cases "ETradioHandlers st1 ! ix") auto
  show ?thesis
    unfolding onReceivedString_def Let_def
    using h ix1 s1 unfolding st1_def ix_def idstr_def inSync_def
    by (auto split: if_splits)
qed

text \<open>
  Claim C5 at a unit with the new id 05, before \<open>General.onRadioMessage\<close> has installed
  a fallback handler: the id is registered with the handler \<open>undefined\<close>, and the
  terminator makes the handler call it.
\<close>

theorem receive_without_fallback_fails:
  "onReceivedString ''05hi~'' (startup :: string radio) = Inl CallUndefined"
  by (simp add: onReceivedString_def startup_def substr_def substrFrom_def toNumber_def trim_def
      isSpace_def isDigit_def digitsVal_def digitVal_def registerMessageHandler_def
      normalizeId_def Let_def)

text \<open>
  Claim C6 at a unit whose id \<open>ab\<close> is not a number: the conversion gives \<open>NaN\<close>
  (lemma \<open>toNumber_ab\<close>), both
  comparisons of the guard are false, and the id is registered with the fallback
  handler, which then receives the text.
\<close>

theorem receive_registers_non_numeric_id:
  "onReceivedString ''abhi~'' (onRadioMessage ''fallback'' startup)
   = Inr \<lparr>ETradioIds = [''ab''], ETradioMsgs = [[]], ETradioHandlers = [Some ''fallback''],
          ETradioHandler = Some ''fallback'', calls = [(''fallback'', ''hi'')]\<rparr>"
  by (simp add: onReceivedString_def onRadioMessage_def startup_def substr_def substrFrom_def
      toNumber_ab registerMessageHandler_def normalizeId_def Let_def)

section \<open>Sending and receiving\<close>

lemma substr_id: "length idstr = 2 \<Longrightarrow> substr (idstr @ rest) 0 2 = idstr"
  by (simp add: substr_def)

lemma ends_tilde: "substrFrom (xs @ ''~'') (int (length (xs @ ''~'')) - 1) = ''~''"
  by (simp add: substrFrom_def)

lemma ends_other:
  assumes "xs \<noteq> []" and "last xs \<noteq> CHR ''~''"
  shows "substrFrom xs (int (length xs) - 1) \<noteq> ''~''"
proof -
  obtain ys y where x: "xs = ys @ [y]" using assms(1) by (metis rev_exhaust)
  then have "substrFrom xs (int (length xs) - 1) = [y]" by (simp add: substrFrom_def)
  with x assms(2) show ?thesis by simp
qed

lemma chunk_final:
  "length idstr = 2 \<Longrightarrow>
   substr (idstr @ chunk @ ''~'') 2 (int (length (idstr @ chunk @ ''~'')) - 3) = chunk"
  by (simp add: substr_def)

lemma chunk_more:
  "length idstr = 2 \<Longrightarrow>
   substr (idstr @ chunk) 2 (int (length (idstr @ chunk)) - 2) = chunk"
  by (simp add: substr_def)

lemma receive_final:
  assumes "length idstr = 2" and "inSync st"
    and "findIx idstr (ETradioIds st) = ix" and "ix < length (ETradioIds st)"
    and "ETradioHandlers st ! ix = Some h"
  shows "onReceivedString (idstr @ chunk @ ''~'') st
         = Inr (st\<lparr>calls := calls st @ [(h, ETradioMsgs st ! ix @ chunk)],
                   ETradioMsgs := (ETradioMsgs st)[ix := []]\<rparr>)"
proof -
  have a: "substr (idstr @ chunk @ ''~'') 0 2 = idstr" using assms(1) by (rule substr_id)
  have b: "substrFrom (idstr @ chunk @ ''~'') (int (length (idstr @ chunk @ ''~'')) - 1) = ''~''"
    using ends_tilde [of "idstr @ chunk"] by simp
  have c: "substr (idstr @ chunk @ ''~'') 2 (int (length (idstr @ chunk @ ''~'')) - 3) = chunk"
    using assms(1) by (rule chunk_final)
  show ?thesis
    unfolding onReceivedString_def Let_def a b c
    using assms by (simp add: inSync_def)
qed

lemma receive_more:
  assumes "length idstr = 2" and "inSync st"
    and "findIx idstr (ETradioIds st) = ix" and "ix < length (ETradioIds st)"
    and "chunk \<noteq> []" and "last chunk \<noteq> CHR ''~''"
  shows "onReceivedString (idstr @ chunk) st
         = Inr (st\<lparr>ETradioMsgs := (ETradioMsgs st)[ix := ETradioMsgs st ! ix @ chunk]\<rparr>)"
proof -
  have a: "substr (idstr @ chunk) 0 2 = idstr" using assms(1) by (rule substr_id)
  have b: "(substrFrom (idstr @ chunk) (int (length (idstr @ chunk)) - 1) = ''~'') = False"
    using ends_other [of "idstr @ chunk"] assms(5,6) by simp
  have c: "substr (idstr @ chunk) 2 (int (length (idstr @ chunk)) - 2) = chunk"
    using assms(1) by (rule chunk_more)
  show ?thesis
    unfolding onReceivedString_def Let_def a b c
    using assms by (simp add: inSync_def)
qed

lemma inSync_msgs: "inSync st \<Longrightarrow> inSync (st\<lparr>ETradioMsgs := (ETradioMsgs st)[ix := ms]\<rparr>)"
  by (simp add: inSync_def)

lemma roundtrip_loop:
  assumes "length idstr = 2"
    and "length msg mod 17 \<noteq> 0 \<or> msg = []"
    and "\<forall>k. 17 * k + 16 < length msg \<longrightarrow> msg ! (17 * k + 16) \<noteq> CHR ''~''"
    and "inSync st"
    and "findIx idstr (ETradioIds st) = ix" and "ix < length (ETradioIds st)"
    and "ETradioHandlers st ! ix = Some h"
  shows "receiveAll (sendLoop idstr msg) st
         = Inr (st\<lparr>calls := calls st @ [(h, ETradioMsgs st ! ix @ msg)],
                   ETradioMsgs := (ETradioMsgs st)[ix := []]\<rparr>)"
  using assms(2-)
proof (induction "length msg" arbitrary: msg st rule: less_induct)
  case less
  consider "length msg < 17" | "length msg = 17" | "17 < length msg" by linarith
  then show ?case
  proof cases
    case 1
    have "onReceivedString (idstr @ msg @ ''~'') st
          = Inr (st\<lparr>calls := calls st @ [(h, ETradioMsgs st ! ix @ msg)],
                    ETradioMsgs := (ETradioMsgs st)[ix := []]\<rparr>)"
      using assms(1) less.prems(3-6) by (rule receive_final)
    with 1 show ?thesis by (simp add: sendLoop_short)
  next
    case 2
    with less.prems(1) show ?thesis by auto
  next
    case 3
    let ?c = "take 17 msg"
    let ?r = "drop 17 msg"
    let ?st1 = "st\<lparr>ETradioMsgs := (ETradioMsgs st)[ix := ETradioMsgs st ! ix @ ?c]\<rparr>"
    have ne: "?c \<noteq> []" using 3 by auto
    have lenc: "length ?c = 17" using 3 by simp
    have "last ?c = ?c ! (length ?c - 1)" using ne by (rule last_conv_nth)
    then have "last ?c = msg ! 16" using lenc by simp
    moreover have "msg ! 16 \<noteq> CHR ''~''" using less.prems(2) [rule_format, of 0] 3 by simp
    ultimately have lc: "last ?c \<noteq> CHR ''~''" by simp
    have first: "onReceivedString (idstr @ ?c) st = Inr ?st1"
      using assms(1) less.prems(3-5) ne lc by (rule receive_more)
    have len: "length ?r < length msg" using 3 by simp
    have mm: "length ?r mod 17 = length msg mod 17" using 3 by (simp add: le_mod_geq)
    have "length msg mod 17 \<noteq> 0" using less.prems(1) 3 by auto
    with mm have m: "length ?r mod 17 \<noteq> 0 \<or> ?r = []" by simp
    have t: "\<forall>k. 17 * k + 16 < length ?r \<longrightarrow> ?r ! (17 * k + 16) \<noteq> CHR ''~''"
    proof (intro allI impI)
      fix k assume k: "17 * k + 16 < length ?r"
      then have "17 * Suc k + 16 < length msg" by simp
      then have "msg ! (17 * Suc k + 16) \<noteq> CHR ''~''" using less.prems(2) by blast
      moreover have "?r ! (17 * k + 16) = msg ! (17 * Suc k + 16)" using 3 by (simp add: add.commute add.left_commute)
      ultimately show "?r ! (17 * k + 16) \<noteq> CHR ''~''" by simp
    qed
    have s1: "inSync ?st1" using less.prems(3) by (rule inSync_msgs)
    have ixm: "ix < length (ETradioMsgs st)" using less.prems(3,5) by (simp add: inSync_def)
    have rest: "receiveAll (sendLoop idstr ?r) ?st1
          = Inr (?st1\<lparr>calls := calls ?st1 @ [(h, ETradioMsgs ?st1 ! ix @ ?r)],
                      ETradioMsgs := (ETradioMsgs ?st1)[ix := []]\<rparr>)"
      using less.hyps [OF len m t s1] less.prems(4-6) by simp
    have "receiveAll (sendLoop idstr msg) st = receiveAll (sendLoop idstr ?r) ?st1"
      using 3 first by (simp add: sendLoop_long)
    also note rest
    also have "?st1\<lparr>calls := calls ?st1 @ [(h, ETradioMsgs ?st1 ! ix @ ?r)],
                      ETradioMsgs := (ETradioMsgs ?st1)[ix := []]\<rparr>
               = st\<lparr>calls := calls st @ [(h, ETradioMsgs st ! ix @ msg)],
                   ETradioMsgs := (ETradioMsgs st)[ix := []]\<rparr>"
      using ixm by simp
    finally show ?thesis .
  qed
qed

text \<open>
  Claim C1, as the code has it. Take a string whose length is not a positive multiple
  of 17 and which has no \<open>~\<close> as the last character of a full chunk of 17
  characters, an id from 1 to 99, and a registry where the two-digit id is found
  with a handler and an empty accumulator. Then the units of \<open>sendRadioMessage\<close>, received
  in order, give exactly one call of that handler, with the string, and leave the
  registry as it was. The three arrays have equal length (\<open>inSync\<close>) in every
  reachable state, by \<open>reachable_idsOk\<close>.
\<close>

theorem roundtrip:
  assumes "1 \<le> ident" and "ident \<le> 99"
    and "length s mod 17 \<noteq> 0 \<or> s = []"
    and "\<forall>k. 17 * k + 16 < length s \<longrightarrow> s ! (17 * k + 16) \<noteq> CHR ''~''"
    and "inSync st"
    and "findIx (idstrOf ident) (ETradioIds st) = ix" and "ix < length (ETradioIds st)"
    and "ETradioHandlers st ! ix = Some h" and "ETradioMsgs st ! ix = []"
  shows "receiveAll (sendRadioMessage s ident) st = Inr (st\<lparr>calls := calls st @ [(h, s)]\<rparr>)"
proof -
  have l: "length (idstrOf ident) = 2" using assms(1,2) by (rule length_idstrOf)
  have "receiveAll (sendRadioMessage s ident) st
        = Inr (st\<lparr>calls := calls st @ [(h, ETradioMsgs st ! ix @ s)],
                  ETradioMsgs := (ETradioMsgs st)[ix := []]\<rparr>)"
    using roundtrip_loop [OF l assms(3-8)] assms(1,2) by (simp add: sendRadioMessage_valid)
  moreover have "(ETradioMsgs st)[ix := []] = ETradioMsgs st"
    using assms(9) by (metis list_update_id)
  ultimately show ?thesis using assms(9) by simp
qed

lemma idstrOf_12: "idstrOf 12 = ''12''"
  by (simp add: idstrOf_def toString_def natToString.simps digitChar_def)

theorem roundtrip_witness:
  "(1::int) \<le> 12 \<and> (12::int) \<le> 99
   \<and> length ''aaaaaaaaaaaaaaaaaa'' mod 17 \<noteq> 0
   \<and> findIx (idstrOf 12) [''12''] = 0
   \<and> receiveAll (sendRadioMessage ''aaaaaaaaaaaaaaaaaa'' 12)
        \<lparr>ETradioIds = [''12''], ETradioMsgs = [[]], ETradioHandlers = [Some ''show''],
         ETradioHandler = None, calls = []\<rparr>
      = Inr \<lparr>ETradioIds = [''12''], ETradioMsgs = [[]], ETradioHandlers = [Some ''show''],
             ETradioHandler = None, calls = [(''show'', ''aaaaaaaaaaaaaaaaaa'')]\<rparr>"
proof -
  let ?s = "''aaaaaaaaaaaaaaaaaa''"
  let ?st = "\<lparr>ETradioIds = [''12''], ETradioMsgs = [[]], ETradioHandlers = [Some ''show''],
         ETradioHandler = None, calls = []\<rparr>"
  have t: "\<forall>k. 17 * k + 16 < length ?s \<longrightarrow> ?s ! (17 * k + 16) \<noteq> CHR ''~''"
  proof (intro allI impI)
    fix k :: nat assume "17 * k + 16 < length ?s"
    then have "k = 0" by simp
    then show "?s ! (17 * k + 16) \<noteq> CHR ''~''" by simp
  qed
  have m: "length ?s mod 17 \<noteq> 0 \<or> ?s = []" by simp
  have f: "findIx (idstrOf 12) (ETradioIds ?st) = 0" by (simp add: idstrOf_12)
  have "receiveAll (sendRadioMessage ?s 12) ?st = Inr (?st\<lparr>calls := calls ?st @ [(''show'', ?s)]\<rparr>)"
    by (rule roundtrip [OF _ _ m t _ f]) (simp_all add: inSync_def)
  then show ?thesis using f by simp
qed

text \<open>
  A \<open>~\<close> in the 17th place of the string ends the first unit, which has no room for a
  terminator; the receiver takes it for the end of the message and calls the handler
  twice, with the two parts.
\<close>

lemma send_tilde:
  "sendRadioMessage ''aaaaaaaaaaaaaaaa~b'' 1 = [''01aaaaaaaaaaaaaaaa~'', ''01b~'']"
  by (simp add: sendRadioMessage_def idstrOf_def toString_def digitChar_def natToString.simps
      sendLoop_long sendLoop_short)

lemma receive_tilde_1:
  "onReceivedString ''01aaaaaaaaaaaaaaaa~''
     \<lparr>ETradioIds = [''01''], ETradioMsgs = [[]], ETradioHandlers = [Some ''show''],
      ETradioHandler = None, calls = []\<rparr>
   = Inr \<lparr>ETradioIds = [''01''], ETradioMsgs = [[]], ETradioHandlers = [Some ''show''],
      ETradioHandler = None, calls = [(''show'', ''aaaaaaaaaaaaaaaa'')]\<rparr>"
  by (simp add: onReceivedString_def substr_def substrFrom_def Let_def)

lemma receive_tilde_2:
  "onReceivedString ''01b~''
     \<lparr>ETradioIds = [''01''], ETradioMsgs = [[]], ETradioHandlers = [Some ''show''],
      ETradioHandler = None, calls = [(''show'', ''aaaaaaaaaaaaaaaa'')]\<rparr>
   = Inr \<lparr>ETradioIds = [''01''], ETradioMsgs = [[]], ETradioHandlers = [Some ''show''],
      ETradioHandler = None, calls = [(''show'', ''aaaaaaaaaaaaaaaa''), (''show'', ''b'')]\<rparr>"
  by (simp add: onReceivedString_def substr_def substrFrom_def Let_def)

theorem roundtrip_counterexample:
  "receiveAll (sendRadioMessage ''aaaaaaaaaaaaaaaa~b'' 1)
     \<lparr>ETradioIds = [''01''], ETradioMsgs = [[]], ETradioHandlers = [Some ''show''],
      ETradioHandler = None, calls = []\<rparr>
   = Inr \<lparr>ETradioIds = [''01''], ETradioMsgs = [[]], ETradioHandlers = [Some ''show''],
          ETradioHandler = None,
          calls = [(''show'', ''aaaaaaaaaaaaaaaa''), (''show'', ''b'')]\<rparr>
   \<and> [(''show'', ''aaaaaaaaaaaaaaaa''), (''show'', ''b'')] \<noteq> [(''show'', ''aaaaaaaaaaaaaaaa~b'')]"
  by (simp add: send_tilde receive_tilde_1 receive_tilde_2)

text \<open>
  A string of 17 characters is sent as one unit without terminator: the receiver keeps
  it in the accumulator and calls no handler.
\<close>

lemma receive_17:
  "onReceivedString ''01aaaaaaaaaaaaaaaaa''
     \<lparr>ETradioIds = [''01''], ETradioMsgs = [[]], ETradioHandlers = [Some ''show''],
      ETradioHandler = None, calls = []\<rparr>
   = Inr \<lparr>ETradioIds = [''01''], ETradioMsgs = [''aaaaaaaaaaaaaaaaa''], ETradioHandlers = [Some ''show''],
      ETradioHandler = None, calls = []\<rparr>"
  by (simp add: onReceivedString_def substr_def substrFrom_def Let_def)

lemma seventeen_characters_not_delivered:
  "receiveAll (sendRadioMessage ''aaaaaaaaaaaaaaaaa'' 1)
     \<lparr>ETradioIds = [''01''], ETradioMsgs = [[]], ETradioHandlers = [Some ''show''],
      ETradioHandler = None, calls = []\<rparr>
   = Inr \<lparr>ETradioIds = [''01''], ETradioMsgs = [''aaaaaaaaaaaaaaaaa''],
          ETradioHandlers = [Some ''show''], ETradioHandler = None, calls = []\<rparr>"
  by (simp add: send_17 receive_17)

section \<open>The group and the logo\<close>

lemma increment_range: "1 \<le> g \<Longrightarrow> g \<le> 9 \<Longrightarrow> 1 \<le> increment g \<and> increment g \<le> 9"
  by (simp add: increment_def)

lemma increment_wrap: "increment 9 = 1"
  by (simp add: increment_def)

lemma first_gesture:
  "ETgroupTimer g = 0 \<Longrightarrow> \<not> ETgroupSet g \<Longrightarrow> raised g = 0 \<Longrightarrow>
   onLogoEvent t g = pendingAfter g 0 t"
  by (simp add: onLogoEvent_def pendingAfter_def)

lemma next_gesture: "onLogoEvent t (pendingAfter g n latest) = pendingAfter g (Suc n) t"
  by (simp add: onLogoEvent_def pendingAfter_def Let_def)

lemma early_poll: "t < latest + 1000 \<Longrightarrow> onEventPoll t (pendingAfter g n latest) = pendingAfter g n latest"
  by (simp add: onEventPoll_def pendingAfter_def)

lemma burst_run:
  "inBurst latest es \<Longrightarrow>
   run es (pendingAfter g n latest) = pendingAfter g (n + gestures es) (lastGesture latest es)"
proof (induction es arbitrary: n latest)
  case Nil
  show ?case by simp
next
  case (Cons e es)
  show ?case
  proof (cases e)
    case (LogoPressed t)
    with Cons show ?thesis by (simp add: next_gesture)
  next
    case (Poll t)
    with Cons show ?thesis by (simp add: early_poll)
  qed
qed

lemma run_append: "run (es @ fs) g = run fs (run es g)"
  by (induction es arbitrary: g) auto

lemma commit:
  "latest + 1000 \<le> t \<Longrightarrow>
   onEventPoll t (pendingAfter g n latest)
   = g\<lparr>ETgroup := (increment ^^ n) (ETgroup g),
       ETgroupTimer := 0, ETgroupSet := False,
       radioGroup := (if n = 0 then radioGroup g else (increment ^^ n) (ETgroup g)),
       raised := 0,
       notified := notified g @ [(increment ^^ n) (ETgroup g)]\<rparr>"
  by (simp add: onEventPoll_def pendingAfter_def)

text \<open>
  Claim C2, as the code has it. From a state with no deadline pending (as at start-up
  and after every commit), a burst is a gesture followed by gestures and polls that come
  before the current deadline, and then a poll at least 1000 ms after the last gesture.
  The burst ends with exactly one more notification. The first gesture of the burst
  leaves the group as it is, and each later gesture of the burst moves it by one step of
  \<open>increment\<close> (9 goes to 1); the group notified is the group reached. The flags are
  as before the burst, so the next burst starts in the same way.
\<close>

theorem burst_commits_once:
  assumes "ETgroupTimer g = 0" and "\<not> ETgroupSet g" and "raised g = 0"
    and "inBurst t0 es" and "lastGesture t0 es + 1000 \<le> tf"
  shows "run (LogoPressed t0 # es @ [Poll tf]) g
         = g\<lparr>ETgroup := (increment ^^ gestures es) (ETgroup g),
             radioGroup := (if gestures es = 0 then radioGroup g
                            else (increment ^^ gestures es) (ETgroup g)),
             notified := notified g @ [(increment ^^ gestures es) (ETgroup g)]\<rparr>"
proof -
  have "run (LogoPressed t0 # es @ [Poll tf]) g
        = onEventPoll tf (run es (pendingAfter g 0 t0))"
    using assms(1-3) by (simp add: run_append first_gesture)
  also have "\<dots> = onEventPoll tf (pendingAfter g (gestures es) (lastGesture t0 es))"
    using burst_run [OF assms(4), of g 0] by simp
  also have "\<dots> = g\<lparr>ETgroup := (increment ^^ gestures es) (ETgroup g),
       ETgroupTimer := 0, ETgroupSet := False,
       radioGroup := (if gestures es = 0 then radioGroup g else (increment ^^ gestures es) (ETgroup g)),
       raised := 0,
       notified := notified g @ [(increment ^^ gestures es) (ETgroup g)]\<rparr>"
    using assms(5) by (rule commit)
  also have "\<dots> = g\<lparr>ETgroup := (increment ^^ gestures es) (ETgroup g),
             radioGroup := (if gestures es = 0 then radioGroup g
                            else (increment ^^ gestures es) (ETgroup g)),
             notified := notified g @ [(increment ^^ gestures es) (ETgroup g)]\<rparr>"
    using assms(1-3) by simp
  finally show ?thesis .
qed


lemma run_example:
  "run [LogoPressed 0, Poll 1, LogoPressed 500, Poll 1200, LogoPressed 1400, Poll 2400] groupStartup
   = \<lparr>ETgroup = 3, ETgroupTimer = 0, ETgroupSet = False, radioGroup = 3,
      raised = 0, notified = [1, 3]\<rparr>"
  by (simp add: groupStartup_def onLogoEvent_def onEventPoll_def increment_def)

theorem burst_commits_once_witness:
  "ETgroupTimer groupStartup = 0 \<and> \<not> ETgroupSet groupStartup \<and> raised groupStartup = 0
   \<and> inBurst 0 [Poll 1, LogoPressed 500, Poll 1200, LogoPressed 1400]
   \<and> lastGesture 0 [Poll 1, LogoPressed 500, Poll 1200, LogoPressed 1400] + 1000 \<le> 2400
   \<and> run (LogoPressed 0 # [Poll 1, LogoPressed 500, Poll 1200, LogoPressed 1400] @ [Poll 2400])
        groupStartup
      = groupStartup\<lparr>ETgroup := 3, radioGroup := 3, notified := [1, 3]\<rparr>"
proof -
  have h: "ETgroupTimer groupStartup = 0" "\<not> ETgroupSet groupStartup" "raised groupStartup = 0"
    by (simp_all add: groupStartup_def)
  have b: "inBurst 0 [Poll 1, LogoPressed 500, Poll 1200, LogoPressed 1400]" by simp
  have l: "lastGesture 0 [Poll 1, LogoPressed 500, Poll 1200, LogoPressed 1400] + 1000 \<le> 2400"
    by simp
  have i: "(increment ^^ 2) 1 = 3" by (simp add: numeral_2_eq_2 increment_def)
  show ?thesis
    using burst_commits_once [OF h b l] h b l i
    by (simp add: groupStartup_def numeral_2_eq_2)
qed

text \<open>
  The second gesture after start-up, made after the first one was committed, does not
  change the group: the commit has set \<open>ETgroupSet\<close> to false again.
\<close>

theorem later_burst_counterexample:
  "ETgroup (run [LogoPressed 0, Poll 1000, LogoPressed 5000] groupStartup)
     = ETgroup (run [LogoPressed 0, Poll 1000] groupStartup)
   \<and> ETgroup (run [LogoPressed 0, Poll 1000, LogoPressed 5000] groupStartup)
     \<noteq> increment (ETgroup (run [LogoPressed 0, Poll 1000] groupStartup))"
  by (simp add: groupStartup_def onLogoEvent_def onEventPoll_def increment_def)

section \<open>Waiting\<close>

declare waitLoopSticky.simps [simp del]
declare waitLoopReset.simps [simp del]


lemma waitUntil_true: "waitUntil presses True w = Some w"
  by (subst waitUntil.simps) simp

lemma waitUntil_abort: "abort w \<Longrightarrow> waitUntil presses False w = Some w"
  by (subst waitUntil.simps) simp

lemma waitUntil_pause:
  "\<not> abort w \<Longrightarrow> waitUntil presses False w = waitUntil presses False (pause1 presses w)"
  by (subst waitUntil.simps) simp

lemma waitUntil_reaches:
  "abort ((pause1 presses ^^ k) w) \<Longrightarrow> \<exists>w'. waitUntil presses False w = Some w' \<and> abort w'"
proof (induction k arbitrary: w)
  case 0
  then show ?case by (simp add: waitUntil_abort)
next
  case (Suc k)
  show ?case
  proof (cases "abort w")
    case True
    then show ?thesis by (simp add: waitUntil_abort)
  next
    case False
    from Suc.prems have "abort ((pause1 presses ^^ k) (pause1 presses w))"
      by (simp add: funpow_swap1)
    then obtain w' where "waitUntil presses False (pause1 presses w) = Some w'" and "abort w'"
      using Suc.IH by blast
    with False show ?thesis by (simp add: waitUntil_pause)
  qed
qed

lemma waitUntil_result_disj:
  assumes "waitUntil presses state w = Some w'"
  shows "state \<or> (\<exists>k. w' = (pause1 presses ^^ k) w \<and> abort w')"
proof (rule waitUntil.raw_induct
    [where P = "\<lambda>p s x y. s \<or> (\<exists>k. y = (pause1 p ^^ k) x \<and> abort y)"])
  show "waitUntil presses state w = Some w'" by (rule assms)
next
  fix f :: "(nat \<Rightarrow> button option) \<Rightarrow> bool \<Rightarrow> world \<Rightarrow> world option"
  fix p s x y
  assume IH: "\<And>p' s' x' y'. f p' s' x' = Some y'
                \<Longrightarrow> s' \<or> (\<exists>k. y' = (pause1 p' ^^ k) x' \<and> abort y')"
  assume eq: "(if \<not> s then if abort x then Some x else f p s (pause1 p x) else Some x) = Some y"
  show "s \<or> (\<exists>k. y = (pause1 p ^^ k) x \<and> abort y)"
  proof (cases s)
    case True
    then show ?thesis by simp
  next
    case ns: False
    show ?thesis
    proof (cases "abort x")
      case True
      with eq ns have "y = x" by simp
      with True have "y = (pause1 p ^^ 0) x \<and> abort y" by simp
      then show ?thesis by blast
    next
      case False
      with eq ns have "f p s (pause1 p x) = Some y" by simp
      then have "s \<or> (\<exists>k. y = (pause1 p ^^ k) (pause1 p x) \<and> abort y)" by (rule IH)
      with ns obtain k where "y = (pause1 p ^^ k) (pause1 p x)" and a: "abort y" by blast
      then have "y = (pause1 p ^^ Suc k) x" by (simp add: funpow_swap1)
      with a show ?thesis by blast
    qed
  qed
qed

lemma waitUntil_result:
  "waitUntil presses state w = Some w' \<Longrightarrow> \<not> state \<Longrightarrow>
   \<exists>k. w' = (pause1 presses ^^ k) w \<and> abort w'"
  using waitUntil_result_disj by blast

lemma waitUntil_returns:
  "(waitUntil presses False w \<noteq> None) = (\<exists>k. abort ((pause1 presses ^^ k) w))"
proof
  assume "waitUntil presses False w \<noteq> None"
  then obtain w' where "waitUntil presses False w = Some w'" by blast
  then show "\<exists>k. abort ((pause1 presses ^^ k) w)" using waitUntil_result by fastforce
next
  assume "\<exists>k. abort ((pause1 presses ^^ k) w)"
  then show "waitUntil presses False w \<noteq> None" using waitUntil_reaches by fastforce
qed

lemma noPress_keeps: "abort ((pause1 noPress ^^ k) w) = abort w"
  by (induction k) (simp_all add: pause1_def noPress_def)

text \<open>
  What the loop of \<open>waitUntil\<close> does. Called with true it returns at once. Called with
  false it tests the flag before every pause of 1 ms, returns exactly when some test
  finds the flag set, and the flag is set in the state it returns.
\<close>

lemma waitUntil_tests_flag_only:
  "(state \<longrightarrow> waitUntil presses state w = Some w)
   \<and> (\<not> state \<longrightarrow> (waitUntil presses state w \<noteq> None) = (\<exists>k. abort ((pause1 presses ^^ k) w)))
   \<and> (\<not> state \<longrightarrow> (\<forall>w'. waitUntil presses state w = Some w' \<longrightarrow> abort w'))"
  using waitUntil_true [of presses w] waitUntil_returns [of presses w]
    waitUntil_result [of presses state w]
  by auto

text \<open>
  Claim C4 at a call whose condition is false at the call and true from time 3 on, with
  no button pressed. The block is "wait until" and the loop pauses in order to test
  again, but what it tests is the value the parameter had at the call: the condition
  becomes true and the call never returns.
\<close>

theorem waitUntil_misses_later_condition:
  "trueFrom 3 3 \<and> callWaitUntil (trueFrom 3) noPress \<lparr>now = 0, abort = False\<rparr> = None"
  using waitUntil_returns [of noPress "\<lparr>now = 0, abort = False\<rparr>"]
  by (simp add: callWaitUntil_def trueFrom_def noPress_keeps)


lemma waitUntil_example:
  "waitUntil (pressBAt 2) False \<lparr>now = 0, abort = False\<rparr> = Some \<lparr>now = 3, abort = True\<rparr>"
  by (simp add: waitUntil.simps pause1_def pressBAt_def onButtonPressed_def)

lemma waitUntil_tests_flag_only_example:
  "waitUntil (pressBAt 2) True \<lparr>now = 0, abort = False\<rparr> = Some \<lparr>now = 0, abort = False\<rparr>
   \<and> \<not> False
   \<and> (\<exists>k. abort ((pause1 (pressBAt 2) ^^ k) \<lparr>now = 0, abort = False\<rparr>))
   \<and> waitUntil (pressBAt 2) False \<lparr>now = 0, abort = False\<rparr> \<noteq> None
   \<and> waitUntil (pressBAt 2) False \<lparr>now = 0, abort = False\<rparr> = Some \<lparr>now = 3, abort = True\<rparr>
   \<and> abort \<lparr>now = 3, abort = True\<rparr>"
  using waitUntil_tests_flag_only [of True "pressBAt 2" "\<lparr>now = 0, abort = False\<rparr>"]
    waitUntil_tests_flag_only [of False "pressBAt 2" "\<lparr>now = 0, abort = False\<rparr>"]
    waitUntil_example
  by simp

lemma sticky_done: "\<not> of_nat (now w) < tm \<Longrightarrow> waitLoopSticky presses tm w = (Elapsed, w)"
  by (subst waitLoopSticky.simps) simp

lemma sticky_abort:
  "of_nat (now w) < tm \<Longrightarrow> abort w \<Longrightarrow> waitLoopSticky presses tm w = (Aborted, w)"
  by (subst waitLoopSticky.simps) simp

lemma sticky_pause:
  "of_nat (now w) < tm \<Longrightarrow> \<not> abort w \<Longrightarrow>
   waitLoopSticky presses tm w = waitLoopSticky presses tm (pause1 presses w)"
  by (subst waitLoopSticky.simps) simp

lemma reset_done: "\<not> of_nat (now w) < tm \<Longrightarrow> waitLoopReset presses tm w = (Elapsed, w)"
  by (subst waitLoopReset.simps) simp

lemma reset_abort:
  "of_nat (now w) < tm \<Longrightarrow> abort w \<Longrightarrow>
   waitLoopReset presses tm w = (Aborted, w\<lparr>abort := False\<rparr>)"
  by (subst waitLoopReset.simps) simp

lemma reset_pause:
  "of_nat (now w) < tm \<Longrightarrow> \<not> abort w \<Longrightarrow>
   waitLoopReset presses tm w = waitLoopReset presses tm (pause1 presses w)"
  by (subst waitLoopReset.simps) simp

lemma now_pause1: "now (pause1 presses w) = now w + 1"
  by (simp add: pause1_def onButtonPressed_def split: option.splits button.splits)

lemma abort_pause1:
  "abort (pause1 presses w) =
     (case presses (now w) of None \<Rightarrow> abort w | Some ButtonA \<Rightarrow> False | Some ButtonB \<Rightarrow> True)"
  by (simp add: pause1_def onButtonPressed_def split: option.splits button.splits)

lemma sticky_aborted_keeps_flag:
  "fst (waitLoopSticky presses tm w) = Aborted \<Longrightarrow> abort (snd (waitLoopSticky presses tm w))"
proof (induction presses tm w rule: waitLoopSticky.induct)
  case (1 presses tm w)
  show ?case
  proof (cases "of_nat (now w) < tm")
    case False
    with 1(2) show ?thesis by (simp add: sticky_done)
  next
    case True
    show ?thesis
    proof (cases "abort w")
      case a: True
      with True show ?thesis by (simp add: sticky_abort)
    next
      case a: False
      with True 1 show ?thesis by (simp add: sticky_pause)
    qed
  qed
qed

lemma reset_aborted_clears_flag:
  "fst (waitLoopReset presses tm w) = Aborted \<Longrightarrow> \<not> abort (snd (waitLoopReset presses tm w))"
proof (induction presses tm w rule: waitLoopReset.induct)
  case (1 presses tm w)
  show ?case
  proof (cases "of_nat (now w) < tm")
    case False
    with 1(2) show ?thesis by (simp add: reset_done)
  next
    case True
    show ?thesis
    proof (cases "abort w")
      case a: True
      with True show ?thesis by (simp add: reset_abort)
    next
      case a: False
      with True 1 show ?thesis by (simp add: reset_pause)
    qed
  qed
qed

lemma reset_no_stop_elapses:
  "\<not> abort w \<Longrightarrow> \<forall>t \<ge> now w. presses t \<noteq> Some ButtonB \<Longrightarrow>
   fst (waitLoopReset presses tm w) = Elapsed"
proof (induction presses tm w rule: waitLoopReset.induct)
  case (1 presses tm w)
  show ?case
  proof (cases "of_nat (now w) < tm")
    case False
    then show ?thesis by (simp add: reset_done)
  next
    case True
    have p: "presses (now w) \<noteq> Some ButtonB" using 1(3) by simp
    have na: "\<not> abort (pause1 presses w)"
      using 1(2) p by (simp add: abort_pause1 split: option.splits button.splits)
    have q: "\<forall>t \<ge> now (pause1 presses w). presses t \<noteq> Some ButtonB"
      using 1(3) by (simp add: now_pause1)
    have "fst (waitLoopReset presses tm (pause1 presses w)) = Elapsed"
      using 1(1) [OF True 1(2) na q] .
    with True 1(2) show ?thesis by (simp add: reset_pause)
  qed
qed

lemma deadline_noRounding: "(of_nat n < deadline noRounding n sec) = (0 < sec)"
  by (simp add: deadline_def noRounding_def)

text \<open>
  Claim C9. The \<open>wait\<close> of main.ts (sticky) that returns because of the flag leaves the
  flag true, so every later wait whose deadline is after the clock returns at once, until
  button A clears the flag. The \<open>wait\<close> of general.ts (auto-reset) that returns because
  of the flag leaves it false, so a later wait with no new press of button B runs to its
  end. This holds for every rounding \<open>fl\<close>; without rounding the deadline is after the
  clock exactly when \<open>sec\<close> is positive (\<open>deadline_noRounding\<close>).
\<close>

theorem abort_flag_variants:
  "(fst (waitSticky fl presses sec w) = Aborted \<longrightarrow> abort (snd (waitSticky fl presses sec w)))
   \<and> (fst (waitReset fl presses sec w) = Aborted
        \<longrightarrow> \<not> abort (snd (waitReset fl presses sec w)))
   \<and> (abort w \<and> of_nat (now w) < deadline fl (now w) sec
        \<longrightarrow> waitSticky fl presses sec w = (Aborted, w))
   \<and> (abort w \<and> of_nat (now w) < deadline fl (now w) sec
        \<longrightarrow> waitReset fl presses sec w = (Aborted, w\<lparr>abort := False\<rparr>))
   \<and> \<not> abort (onButtonPressed ButtonA w)
   \<and> (\<not> abort w \<and> (\<forall>t \<ge> now w. presses t \<noteq> Some ButtonB)
        \<longrightarrow> fst (waitReset fl presses sec w) = Elapsed)"
  using sticky_aborted_keeps_flag [of presses "deadline fl (now w) sec" w]
    reset_aborted_clears_flag [of presses "deadline fl (now w) sec" w]
    reset_no_stop_elapses [of w presses "deadline fl (now w) sec"]
  by (simp add: waitSticky_def waitReset_def sticky_abort reset_abort onButtonPressed_def)

lemma pause1_stop:
  "presses (now w) = Some ButtonB \<Longrightarrow> pause1 presses w = \<lparr>now = now w + 1, abort = True\<rparr>"
  by (simp add: pause1_def onButtonPressed_def)

lemma sticky_after_stop:
  assumes "\<not> abort w" and "now w \<le> t"
    and "\<forall>u. now w \<le> u \<and> u < t \<longrightarrow> presses u \<noteq> Some ButtonB"
    and "presses t = Some ButtonB" and "of_nat t < tm"
  shows "waitLoopSticky presses tm w
         = (if of_nat (t + 1) < tm then Aborted else Elapsed, \<lparr>now = t + 1, abort = True\<rparr>)"
  using assms(1-3)
proof (induction "t - now w" arbitrary: w)
  case 0
  then have e: "now w = t" by simp
  then have p: "pause1 presses w = \<lparr>now = t + 1, abort = True\<rparr>"
    using assms(4) pause1_stop [of presses w] by simp
  have "waitLoopSticky presses tm w = waitLoopSticky presses tm \<lparr>now = t + 1, abort = True\<rparr>"
    using e assms(5) 0(2) p by (simp add: sticky_pause)
  also have "\<dots> = (if of_nat (t + 1) < tm then Aborted else Elapsed, \<lparr>now = t + 1, abort = True\<rparr>)"
    by (cases "of_nat (t + 1) < tm") (simp_all add: sticky_abort sticky_done)
  finally show ?case .
next
  case (Suc n)
  then have lt: "now w < t" by simp
  then have run: "of_nat (now w) < tm" using assms(5) by (simp add: order_less_trans [OF _ assms(5)] of_nat_less_iff)
  have np: "presses (now w) \<noteq> Some ButtonB" using Suc.prems(3) lt by simp
  have na: "\<not> abort (pause1 presses w)"
    using Suc.prems(1) np by (simp add: abort_pause1 split: option.splits button.splits)
  have n1: "n = t - now (pause1 presses w)" using Suc(2) by (simp add: now_pause1)
  have le: "now (pause1 presses w) \<le> t" using lt by (simp add: now_pause1)
  have q: "\<forall>u. now (pause1 presses w) \<le> u \<and> u < t \<longrightarrow> presses u \<noteq> Some ButtonB"
    using Suc.prems(3) by (simp add: now_pause1)
  have "waitLoopSticky presses tm w = waitLoopSticky presses tm (pause1 presses w)"
    using run Suc.prems(1) by (rule sticky_pause)
  also have "\<dots> = (if of_nat (t + 1) < tm then Aborted else Elapsed, \<lparr>now = t + 1, abort = True\<rparr>)"
    using Suc(1) [OF n1 na le q] .
  finally show ?case .
qed

lemma reset_after_stop:
  assumes "\<not> abort w" and "now w \<le> t"
    and "\<forall>u. now w \<le> u \<and> u < t \<longrightarrow> presses u \<noteq> Some ButtonB"
    and "presses t = Some ButtonB" and "of_nat t < tm"
  shows "waitLoopReset presses tm w
         = (if of_nat (t + 1) < tm then (Aborted, \<lparr>now = t + 1, abort = False\<rparr>)
            else (Elapsed, \<lparr>now = t + 1, abort = True\<rparr>))"
  using assms(1-3)
proof (induction "t - now w" arbitrary: w)
  case 0
  then have e: "now w = t" by simp
  then have p: "pause1 presses w = \<lparr>now = t + 1, abort = True\<rparr>"
    using assms(4) pause1_stop [of presses w] by simp
  have "waitLoopReset presses tm w = waitLoopReset presses tm \<lparr>now = t + 1, abort = True\<rparr>"
    using e assms(5) 0(2) p by (simp add: reset_pause)
  also have "\<dots> = (if of_nat (t + 1) < tm then (Aborted, \<lparr>now = t + 1, abort = False\<rparr>)
            else (Elapsed, \<lparr>now = t + 1, abort = True\<rparr>))"
    by (cases "of_nat (t + 1) < tm") (simp_all add: reset_abort reset_done)
  finally show ?case .
next
  case (Suc n)
  then have lt: "now w < t" by simp
  then have run: "of_nat (now w) < tm" using assms(5) by (simp add: order_less_trans [OF _ assms(5)] of_nat_less_iff)
  have np: "presses (now w) \<noteq> Some ButtonB" using Suc.prems(3) lt by simp
  have na: "\<not> abort (pause1 presses w)"
    using Suc.prems(1) np by (simp add: abort_pause1 split: option.splits button.splits)
  have n1: "n = t - now (pause1 presses w)" using Suc(2) by (simp add: now_pause1)
  have le: "now (pause1 presses w) \<le> t" using lt by (simp add: now_pause1)
  have q: "\<forall>u. now (pause1 presses w) \<le> u \<and> u < t \<longrightarrow> presses u \<noteq> Some ButtonB"
    using Suc.prems(3) by (simp add: now_pause1)
  have "waitLoopReset presses tm w = waitLoopReset presses tm (pause1 presses w)"
    using run Suc.prems(1) by (rule reset_pause)
  also have "\<dots> = (if of_nat (t + 1) < tm then (Aborted, \<lparr>now = t + 1, abort = False\<rparr>)
            else (Elapsed, \<lparr>now = t + 1, abort = True\<rparr>))"
    using Suc(1) [OF n1 na le q] .
  finally show ?case .
qed

text \<open>
  Claim C10. Button B is pressed during the pause that starts at time \<open>t\<close>, while a
  wait that started with the flag unset is in progress. Both versions of \<open>wait\<close> return
  at time \<open>t + 1\<close>, one pause of 1 ms later; and they return because of the flag unless
  the time of the wait is over at \<open>t + 1\<close> anyway. This holds for every rounding \<open>fl\<close>
  of the deadline; for \<open>wait(5)\<close> the deadline is a whole number and is not rounded.
\<close>

theorem wait_returns_one_poll_after_stop:
  assumes "\<not> abort w" and "now w \<le> t"
    and "\<forall>u. now w \<le> u \<and> u < t \<longrightarrow> presses u \<noteq> Some ButtonB"
    and "presses t = Some ButtonB"
    and "of_nat t < deadline fl (now w) sec"
  shows "now (snd (waitSticky fl presses sec w)) = t + 1
         \<and> now (snd (waitReset fl presses sec w)) = t + 1
         \<and> (of_nat (t + 1) < deadline fl (now w) sec
              \<longrightarrow> fst (waitSticky fl presses sec w) = Aborted
                  \<and> fst (waitReset fl presses sec w) = Aborted)"
  using sticky_after_stop [OF assms] reset_after_stop [OF assms]
  by (simp add: waitSticky_def waitReset_def)

lemma wait5_sticky:
  "waitSticky noRounding (pressBAt 2) 5 \<lparr>now = 0, abort = False\<rparr>
   = (Aborted, \<lparr>now = 3, abort = True\<rparr>)"
  by (simp add: waitSticky_def deadline_def noRounding_def waitLoopSticky.simps pause1_def
      pressBAt_def onButtonPressed_def)

lemma wait5_reset:
  "waitReset noRounding (pressBAt 2) 5 \<lparr>now = 0, abort = False\<rparr>
   = (Aborted, \<lparr>now = 3, abort = False\<rparr>)"
  by (simp add: waitReset_def deadline_def noRounding_def waitLoopReset.simps pause1_def
      pressBAt_def onButtonPressed_def)

theorem wait_returns_one_poll_after_stop_witness:
  "\<not> abort \<lparr>now = 0, abort = False\<rparr> \<and> now \<lparr>now = 0, abort = False\<rparr> \<le> 2
   \<and> pressBAt 2 2 = Some ButtonB
   \<and> rat_of_nat 2 < deadline noRounding 0 5 \<and> rat_of_nat (2 + 1) < deadline noRounding 0 5
   \<and> now (snd (waitSticky noRounding (pressBAt 2) 5 \<lparr>now = 0, abort = False\<rparr>)) = 2 + 1
   \<and> now (snd (waitReset noRounding (pressBAt 2) 5 \<lparr>now = 0, abort = False\<rparr>)) = 2 + 1
   \<and> fst (waitSticky noRounding (pressBAt 2) 5 \<lparr>now = 0, abort = False\<rparr>) = Aborted
   \<and> fst (waitReset noRounding (pressBAt 2) 5 \<lparr>now = 0, abort = False\<rparr>) = Aborted"
proof -
  let ?w = "\<lparr>now = 0, abort = False\<rparr>"
  have h1: "\<not> abort ?w" by simp
  have h2: "now ?w \<le> 2" by simp
  have h3: "\<forall>u. now ?w \<le> u \<and> u < 2 \<longrightarrow> pressBAt 2 u \<noteq> Some ButtonB"
    by (simp add: pressBAt_def)
  have h4: "pressBAt 2 2 = Some ButtonB" by (simp add: pressBAt_def)
  have h5: "rat_of_nat 2 < deadline noRounding (now ?w) 5"
    by (simp add: deadline_def noRounding_def)
  show ?thesis
    using wait_returns_one_poll_after_stop [OF h1 h2 h3 h4 h5] h4
    by (simp add: deadline_def noRounding_def)
qed

theorem abort_flag_variants_witness:
  "fst (waitSticky noRounding (pressBAt 2) 5 \<lparr>now = 0, abort = False\<rparr>) = Aborted
   \<and> abort (snd (waitSticky noRounding (pressBAt 2) 5 \<lparr>now = 0, abort = False\<rparr>))
   \<and> fst (waitReset noRounding (pressBAt 2) 5 \<lparr>now = 0, abort = False\<rparr>) = Aborted
   \<and> \<not> abort (snd (waitReset noRounding (pressBAt 2) 5 \<lparr>now = 0, abort = False\<rparr>))
   \<and> abort \<lparr>now = 3, abort = True\<rparr> \<and> rat_of_nat 3 < deadline noRounding 3 5
   \<and> waitSticky noRounding noPress 5 \<lparr>now = 3, abort = True\<rparr> = (Aborted, \<lparr>now = 3, abort = True\<rparr>)
   \<and> waitReset noRounding noPress 5 \<lparr>now = 3, abort = True\<rparr> = (Aborted, \<lparr>now = 3, abort = False\<rparr>)
   \<and> \<not> abort \<lparr>now = 3, abort = False\<rparr>
   \<and> fst (waitReset noRounding noPress 5 \<lparr>now = 3, abort = False\<rparr>) = Elapsed"
  using abort_flag_variants [of noRounding "pressBAt 2" 5 "\<lparr>now = 0, abort = False\<rparr>"]
    abort_flag_variants [of noRounding noPress 5 "\<lparr>now = 3, abort = True\<rparr>"]
    abort_flag_variants [of noRounding noPress 5 "\<lparr>now = 3, abort = False\<rparr>"]
    wait5_sticky wait5_reset
  by (simp add: noPress_def deadline_def noRounding_def)

end
